theory Spec2Isabelle
  imports Complex_Main
begin

section \<open>The board stitcher of apps/web/src/lib/mapping/stitcher.ts\<close>

text \<open>
  The class \<open>BoardStitcher\<close> (its text follows the camera hook in
  \<open>src/apps/web/src/lib/camera/useCamera.ts\<close>) accumulates camera frames and composes
  them into one panoramic canvas. Its fields become a record that every method takes and
  returns;
  a thrown exception is the \<open>Inl\<close> branch of a sum. JavaScript numbers that the code
  only uses as array indices and pixel counts are integers here; quality scores,
  correlation scores and canvas coordinates are real numbers, so the model computes the
  exact value of every arithmetic expression of the source.
\<close>

subsection \<open>Data\<close>

text \<open>
  An \<open>HTMLCanvasElement\<close> is its size and what \<open>getContext('2d')\<close> answers: \<open>None\<close>
  for \<open>null\<close>, otherwise the RGBA bytes that \<open>getImageData(0, 0, width, height).data\<close>
  holds (four per pixel, row after row).
\<close>

text \<open>
  Field names are the source's, but for \<open>id\<close> of a frame (\<open>frame_id\<close> here) and
  \<open>x\<close>, \<open>y\<close>, \<open>width\<close>, \<open>height\<close> of an overlap region (\<open>region_x\<close> and so
  on), which would hide names in use. Of a frame's \<open>imageData\<close> only the bytes are
  kept; the stitcher never reads it.
\<close>

record HTMLCanvasElement =
  width :: nat
  height :: nat
  context2d :: "nat list option"

record StitchFrame =
  frame_id :: string
  index :: int
  canvas :: HTMLCanvasElement
  imageData :: "nat list"
  timestamp :: int
  quality :: real

record OverlapRegion =
  frame1Id :: string
  frame2Id :: string
  region_x :: int
  region_y :: int
  region_width :: int
  region_height :: int
  confidence :: real

record Transform =
  tx :: real
  ty :: real
  scale :: real

record BoardStitcher =
  frames :: "StitchFrame list"
  composition :: "HTMLCanvasElement option"
  transforms :: "string \<rightharpoonup> Transform"
  overlaps :: "OverlapRegion list"

text \<open>The field initialisers of the class.\<close>

definition new_BoardStitcher :: BoardStitcher where
  "new_BoardStitcher =
     \<lparr>frames = [], composition = None, transforms = Map.empty, overlaps = []\<rparr>"

text \<open>
  What the browser throws from a canvas call is a value of its own type, apart from the
  \<open>Error\<close> objects that the stitcher creates itself with a message.
\<close>

datatype BrowserException = IndexSizeError | InvalidStateError | OtherException string

datatype error = Error string | Thrown BrowserException

datatype Side = left | right

subsection \<open>The canvas interface the stitcher draws through\<close>

datatype FillStyle =
  Color string
| LinearGradient real real real real "(real \<times> string) list"

text \<open>
  One call on a 2D context, with the \<open>globalAlpha\<close> (and, for \<open>fillRect\<close>, the
  \<open>fillStyle\<close>) in force when it is made.
\<close>

datatype DrawOp =
  FillRect real FillStyle real real real real
| DrawImage real HTMLCanvasElement real real
| DrawImageSub real HTMLCanvasElement real real real real real real real real

text \<open>
  The browser is a parameter: \<open>createCanvas w h\<close> is the element that
  \<open>document.createElement('canvas')\<close> gives once \<open>w\<close> and \<open>h\<close> are assigned to its
  \<open>width\<close> and \<open>height\<close>, and \<open>draw op c\<close> is the canvas \<open>c\<close> after the call
  \<open>op\<close> on its context, or the exception the call throws.
\<close>

record Browser =
  createCanvas :: "real \<Rightarrow> real \<Rightarrow> HTMLCanvasElement"
  draw :: "DrawOp \<Rightarrow> HTMLCanvasElement \<Rightarrow> BrowserException + HTMLCanvasElement"

subsection \<open>Reading arrays as JavaScript does\<close>

text \<open>\<open>xs[i]\<close>: \<open>undefined\<close> (here \<open>None\<close>) outside the array.\<close>

definition item :: "'a list \<Rightarrow> int \<Rightarrow> 'a option" where
  "item xs i = (if 0 \<le> i \<and> i < int (length xs) then Some (xs ! nat i) else None)"

text \<open>
  Storing a number into a \<open>Uint8ClampedArray\<close>: clamped to 0..255 and rounded to the
  nearest integer, a tie going to the even one.
\<close>

definition toUint8Clamp :: "real \<Rightarrow> nat" where
  "toUint8Clamp v =
     (if v \<le> 0 then 0
      else if 255 \<le> v then 255
      else let f = \<lfloor>v\<rfloor>; d = v - of_int f
           in nat (if d < 1/2 then f else if 1/2 < d then f + 1
                   else if even f then f else f + 1))"

text \<open>
  \<open>ctx.getImageData(0, 0, canvas.width, canvas.height).data\<close>: the call throws an
  \<open>IndexSizeError\<close> when the rectangle has no width or no height.
\<close>

definition getImageData :: "HTMLCanvasElement \<Rightarrow> nat list \<Rightarrow> error + nat list" where
  "getImageData c bitmap =
     (if width c = 0 \<or> height c = 0 then Inl (Thrown IndexSizeError) else Inr bitmap)"

subsection \<open>addFrame\<close>

definition addFrame :: "StitchFrame \<Rightarrow> BoardStitcher \<Rightarrow> BoardStitcher" where
  "addFrame frame s =
     (if quality frame < 0.3 then s
      else s\<lparr>frames := frames s @ [frame]\<rparr>)"

subsection \<open>extractVerticalEdge\<close>

text \<open>
  The grey value written to \<open>edge[y * width + px]\<close>: the mean of the three colour bytes
  at \<open>idx\<close>, as the typed array stores it. A byte read outside the buffer is
  \<open>undefined\<close>, the mean is then \<open>NaN\<close>, and the array stores 0 for it.
\<close>

definition gray :: "nat list \<Rightarrow> int \<Rightarrow> nat" where
  "gray data idx =
     (case (item data idx, item data (idx + 1), item data (idx + 2)) of
        (Some r, Some g, Some b) \<Rightarrow> toUint8Clamp ((real r + real g + real b) / 3)
      | _ \<Rightarrow> 0)"

definition edgeRow :: "nat list \<Rightarrow> nat \<Rightarrow> int \<Rightarrow> nat \<Rightarrow> nat \<Rightarrow> nat list \<Rightarrow> nat list" where
  "edgeRow data cw x w y edge =
     fold (\<lambda>px e. e[y * w + px := gray data ((int y * int cw + x + int px) * 4)]) [0..<w] edge"

definition extractVerticalEdge ::
  "HTMLCanvasElement \<Rightarrow> Side \<Rightarrow> nat \<Rightarrow> error + nat list option" where
  "extractVerticalEdge c side w =
     (case context2d c of
        None \<Rightarrow> Inr None
      | Some bitmap \<Rightarrow>
          (case getImageData c bitmap of
             Inl e \<Rightarrow> Inl e
           | Inr data \<Rightarrow>
               let x = (if side = right then int (width c) - int w else 0);
                   edge = replicate (height c * w) 0
               in Inr (Some (fold (edgeRow data (width c) x w) [0..<height c] edge))))"

subsection \<open>correlateEdges\<close>

text \<open>
  The loop bound keeps both reads inside the arrays: \<open>i\<close> is below the length of
  \<open>edge1\<close> and \<open>i + offset\<close> below the length of \<open>edge2\<close>.
\<close>

definition correlateEdges :: "nat list \<Rightarrow> nat list \<Rightarrow> nat \<Rightarrow> real" where
  "correlateEdges edge1 edge2 offset =
     (let n = nat (min (int (length edge1)) (int (length edge2) - int offset));
          (sum, count) =
             fold (\<lambda>i (sum, count).
                     let diff = \<bar>real (edge1 ! i) - real (edge2 ! (i + offset))\<bar>
                     in (sum + (1 - diff / 255), count + (1::nat)))
                  [0..<n] (0, 0)
      in if count > 0 then sum / real count else 0)"

subsection \<open>detectOverlap\<close>

definition bestCorrelation :: "nat list \<Rightarrow> nat list \<Rightarrow> nat \<times> real" where
  "bestCorrelation rightEdge leftEdge =
     fold (\<lambda>offset (bestOffset, bestScore).
             let score = correlateEdges rightEdge leftEdge offset
             in if score > bestScore then (offset, score) else (bestOffset, bestScore))
          [0..<nat (min (int (length rightEdge)) (int (length leftEdge)) - 20)]
          (0, 0)"

definition detectOverlap :: "StitchFrame \<Rightarrow> StitchFrame \<Rightarrow> error + OverlapRegion option" where
  "detectOverlap frame1 frame2 =
     (let canvas1 = canvas frame1; canvas2 = canvas frame2
      in case extractVerticalEdge canvas1 right 60 of
           Inl e \<Rightarrow> Inl e
         | Inr rightEdge \<Rightarrow>
            (case extractVerticalEdge canvas2 left 60 of
               Inl e \<Rightarrow> Inl e
             | Inr leftEdge \<Rightarrow>
                (case (rightEdge, leftEdge) of
                   (Some rightEdge, Some leftEdge) \<Rightarrow>
                     let (bestOffset, bestScore) = bestCorrelation rightEdge leftEdge
                     in if bestScore < 0.5 then Inr None
                        else Inr (Some
                          \<lparr>frame1Id = frame_id frame1,
                           frame2Id = frame_id frame2,
                           region_x = int (width canvas1) - 60,
                           region_y = int bestOffset,
                           region_width = 60,
                           region_height = int (height canvas1) - \<bar>int bestOffset\<bar>,
                           confidence = bestScore\<rparr>)
                 | _ \<Rightarrow> Inr None)))"

subsection \<open>blendFrames\<close>

text \<open>
  The three calls of \<open>blendFrames\<close> on the composition canvas \<open>cvs\<close>, in order; the
  first exception ends it.
\<close>

definition blendFrames ::
  "Browser \<Rightarrow> HTMLCanvasElement \<Rightarrow> HTMLCanvasElement \<Rightarrow> OverlapRegion \<Rightarrow> real \<Rightarrow> real \<Rightarrow>
   HTMLCanvasElement \<Rightarrow> BrowserException + HTMLCanvasElement" where
  "blendFrames B frame1 frame2 overlap xOffset yOffset cvs =
     (case draw B (DrawImage 1.0 frame1 xOffset yOffset) cvs of
        Inl e \<Rightarrow> Inl e
      | Inr cvs1 \<Rightarrow>
          let overlapX = xOffset + real_of_int (region_x overlap);
              overlapY = yOffset + real_of_int (region_y overlap);
              blendWidth = real_of_int (region_width overlap);
              gradient = LinearGradient overlapX 0 (overlapX + blendWidth) 0
                           [(0, ''rgba(0,0,0,0.3)''), (1, ''rgba(0,0,0,0)'')]
          in (case draw B (FillRect 0.5 gradient overlapX overlapY blendWidth
                             (real_of_int (region_height overlap))) cvs1 of
                Inl e \<Rightarrow> Inl e
              | Inr cvs2 \<Rightarrow>
                  draw B (DrawImage 0.7 frame2
                            (xOffset + real (width frame1) - real_of_int (region_width overlap))
                            (yOffset + real_of_int (region_y overlap))) cvs2))"

subsection \<open>cropToContent\<close>

definition exceeds :: "nat option \<Rightarrow> nat \<Rightarrow> bool" where
  "exceeds v n = (case v of Some m \<Rightarrow> n < m | None \<Rightarrow> False)"

text \<open>
  The scan visits \<open>i = 0, 4, 8, ...\<close> below \<open>data.length\<close>; \<open>k\<close> is \<open>i / 4\<close>, the
  pixel index.
\<close>

definition contentBounds :: "nat list \<Rightarrow> int \<Rightarrow> int \<Rightarrow> int \<times> int \<times> int \<times> int" where
  "contentBounds data cw ch =
     fold (\<lambda>k (minX, maxX, minY, maxY).
             let i = 4 * int k;
                 r = item data i; g = item data (i + 1); b = item data (i + 2);
                 a = item data (i + 3)
             in if \<not> (exceeds r 240 \<and> exceeds g 240 \<and> exceeds b 240) \<or> exceeds a 200
                then let pixelIndex = int k;
                         y = pixelIndex div cw;
                         x = pixelIndex mod cw
                     in (min minX x, max maxX x, min minY y, max maxY y)
                else (minX, maxX, minY, maxY))
          [0..<(length data + 3) div 4]
          (cw, 0, ch, 0)"

definition cropToContent :: "Browser \<Rightarrow> HTMLCanvasElement \<Rightarrow> error + HTMLCanvasElement" where
  "cropToContent B c =
     (case context2d c of
        None \<Rightarrow> Inr c
      | Some bitmap \<Rightarrow>
          (case getImageData c bitmap of
             Inl e \<Rightarrow> Inl e
           | Inr data \<Rightarrow>
               let (minX0, maxX0, minY0, maxY0) =
                     contentBounds data (int (width c)) (int (height c));
                   padding = 10;
                   minX = max 0 (minX0 - padding);
                   minY = max 0 (minY0 - padding);
                   maxX = min (int (width c)) (maxX0 + padding);
                   maxY = min (int (height c)) (maxY0 + padding);
                   croppedCanvas =
                     createCanvas B (real_of_int (maxX - minX)) (real_of_int (maxY - minY))
               in (case context2d croppedCanvas of
                     None \<Rightarrow> Inr croppedCanvas
                   | Some _ \<Rightarrow>
                       (case draw B (DrawImageSub 1 c (real_of_int minX) (real_of_int minY)
                                       (real_of_int (maxX - minX)) (real_of_int (maxY - minY))
                                       0 0
                                       (real_of_int (maxX - minX)) (real_of_int (maxY - minY)))
                                    croppedCanvas of
                          Inl e \<Rightarrow> Inl (Thrown e)
                        | Inr drawn \<Rightarrow> Inr drawn))))"

subsection \<open>stitch\<close>

text \<open>
  The first loop of \<open>stitch\<close>: \<open>this.overlaps\<close> grows by every region found between
  \<open>frames[i]\<close> and \<open>frames[i + 1]\<close>. An exception leaves the regions pushed so far.
\<close>

fun detectOverlaps ::
  "StitchFrame list \<Rightarrow> OverlapRegion list \<Rightarrow> error option \<times> OverlapRegion list" where
  "detectOverlaps (f1 # f2 # fs) acc =
     (case detectOverlap f1 f2 of
        Inl e \<Rightarrow> (Some e, acc)
      | Inr None \<Rightarrow> detectOverlaps (f2 # fs) acc
      | Inr (Some overlap) \<Rightarrow> detectOverlaps (f2 # fs) (acc @ [overlap]))"
| "detectOverlaps fs acc = (None, acc)"

text \<open>
  The second loop and the two assignments after it: the numbers given to
  \<open>composition.width\<close> and \<open>composition.height\<close>. \<open>this.overlaps[i - 1]\<close> is
  \<open>undefined\<close> beyond the regions found; \<open>this.frames[i]\<close> is always a stored frame,
  as \<open>stitch\<close> comes here with two frames or more.
\<close>

definition compositionSize :: "StitchFrame list \<Rightarrow> OverlapRegion list \<Rightarrow> real \<times> real" where
  "compositionSize fs ovs =
     (let (totalWidth, maxHeight) =
            fold (\<lambda>i (totalWidth, maxHeight).
                    let overlapWidth =
                          (case item ovs (int i - 1) of
                             Some overlap \<Rightarrow> real_of_int (region_width overlap)
                           | None \<Rightarrow> 0);
                        frameContribution =
                          real (width (canvas (fs ! i))) - overlapWidth * 0.5
                    in (totalWidth + frameContribution,
                        max maxHeight (real (height (canvas (fs ! i))))))
                 [1..<length fs]
                 (real (width (canvas (fs ! 0))), real (height (canvas (fs ! 0))));
          padding = 20
      in (totalWidth + padding * 2, maxHeight + padding * 2))"

text \<open>
  One round of the third loop, for \<open>frames[i]\<close>: the transform is recorded first, then
  the frame is drawn and the cursor \<open>currentX\<close> moves on.
\<close>

type_synonym placing = "HTMLCanvasElement \<times> real \<times> (string \<rightharpoonup> Transform)"

definition placeFrame ::
  "Browser \<Rightarrow> StitchFrame list \<Rightarrow> OverlapRegion list \<Rightarrow> real \<Rightarrow> nat \<Rightarrow> placing \<Rightarrow>
   BrowserException option \<times> placing" where
  "placeFrame B fs ovs padding i st =
     (case st of (cvs, currentX, trs) \<Rightarrow>
        let frame = fs ! i;
            transform = \<lparr>tx = currentX, ty = padding, scale = 1\<rparr>;
            trs1 = trs(frame_id frame \<mapsto> transform)
        in if i = 0 then
             (case draw B (DrawImage 1 (canvas frame) currentX padding) cvs of
                Inl e \<Rightarrow> (Some e, cvs, currentX, trs1)
              | Inr cvs1 \<Rightarrow> (None, cvs1, currentX + real (width (canvas frame)), trs1))
           else
             let prevFrame = fs ! (i - 1)
             in (case item ovs (int i - 1) of
                   Some overlap \<Rightarrow>
                     (case blendFrames B (canvas prevFrame) (canvas frame) overlap
                             (currentX - real (width (canvas prevFrame))) padding cvs of
                        Inl e \<Rightarrow> (Some e, cvs, currentX, trs1)
                      | Inr cvs1 \<Rightarrow>
                          (None, cvs1,
                           currentX + (real (width (canvas frame))
                                       - real_of_int (region_width overlap) * 0.7),
                           trs1))
                 | None \<Rightarrow>
                     (case draw B (DrawImage 1 (canvas frame) currentX padding) cvs of
                        Inl e \<Rightarrow> (Some e, cvs, currentX, trs1)
                      | Inr cvs1 \<Rightarrow>
                          (None, cvs1, currentX + real (width (canvas frame)), trs1))))"

fun drawFrames ::
  "Browser \<Rightarrow> StitchFrame list \<Rightarrow> OverlapRegion list \<Rightarrow> real \<Rightarrow> nat list \<Rightarrow> placing \<Rightarrow>
   BrowserException option \<times> placing" where
  "drawFrames B fs ovs padding [] st = (None, st)"
| "drawFrames B fs ovs padding (i # rest) st =
     (case placeFrame B fs ovs padding i st of
        (Some e, st1) \<Rightarrow> (Some e, st1)
      | (None, st1) \<Rightarrow> drawFrames B fs ovs padding rest st1)"

definition stitch ::
  "Browser \<Rightarrow> BoardStitcher \<Rightarrow> (error + HTMLCanvasElement) \<times> BoardStitcher" where
  "stitch B s =
     (if length (frames s) = 0 then (Inl (Error ''No frames to stitch''), s)
      else if length (frames s) = 1 then (Inr (canvas (frames s ! 0)), s)
      else
        (case detectOverlaps (frames s) [] of
           (Some e, found) \<Rightarrow> (Inl e, s\<lparr>overlaps := found\<rparr>)
         | (None, found) \<Rightarrow>
             let s1 = s\<lparr>overlaps := found\<rparr>;
                 (w, h) = compositionSize (frames s1) (overlaps s1);
                 padding = 20;
                 cvs = createCanvas B w h
             in (case context2d cvs of
                  None \<Rightarrow> (Inl (Error ''Failed to get canvas context''), s1)
                | Some _ \<Rightarrow>
                    (case draw B (FillRect 1 (Color ''white'') 0 0
                                    (real (width cvs)) (real (height cvs))) cvs of
                       Inl e \<Rightarrow> (Inl (Thrown e), s1)
                     | Inr cvs1 \<Rightarrow>
                         (case drawFrames B (frames s1) (overlaps s1) padding
                                 [0..<length (frames s1)] (cvs1, padding, transforms s1) of
                            (Some e, _, _, trs) \<Rightarrow> (Inl (Thrown e), s1\<lparr>transforms := trs\<rparr>)
                          | (None, cvs2, _, trs) \<Rightarrow>
                              (case cropToContent B cvs2 of
                                 Inl e \<Rightarrow> (Inl e, s1\<lparr>transforms := trs\<rparr>)
                               | Inr cropped \<Rightarrow>
                                   (Inr cropped,
                                    s1\<lparr>transforms := trs,
                                       composition := Some cropped\<rparr>)))))))"

subsection \<open>Queries and reset\<close>

definition getComposition :: "BoardStitcher \<Rightarrow> HTMLCanvasElement option" where
  "getComposition s = composition s"

definition getProgress :: "BoardStitcher \<Rightarrow> real" where
  "getProgress s =
     (if length (frames s) = 0 then 0
      else
        let frameProgress = (real (length (frames s)) / 20) * 60;
            overlapProgress =
              (real (length (overlaps s)) / max 1 (real (length (frames s)) - 1)) * 40
        in min 100 (frameProgress + overlapProgress))"

definition getQuality :: "BoardStitcher \<Rightarrow> real" where
  "getQuality s =
     (if length (frames s) < 2 then 0
      else
        let frameScore = min 1 (real (length (frames s)) / 20);
            avgOverlapConfidence =
              (if length (overlaps s) > 0
               then foldl (\<lambda>sum ov. sum + confidence ov) 0 (overlaps s)
                      / real (length (overlaps s))
               else 0);
            avgFrameQuality =
              foldl (\<lambda>sum f. sum + quality f) 0 (frames s) / real (length (frames s))
        in (frameScore * 0.4) + (avgOverlapConfidence * 0.3) + (avgFrameQuality * 0.3))"

definition getFrameCount :: "BoardStitcher \<Rightarrow> nat" where
  "getFrameCount s = length (frames s)"

definition getFrames :: "BoardStitcher \<Rightarrow> StitchFrame list" where
  "getFrames s = frames s"

definition clear :: "BoardStitcher \<Rightarrow> BoardStitcher" where
  "clear s = s\<lparr>frames := [], composition := None, transforms := Map.empty, overlaps := []\<rparr>"

subsection \<open>States a caller can reach\<close>

text \<open>
  A stitcher starts with the field initialisers and changes only through its public
  methods, in a browser of any behaviour.
\<close>

inductive reachable :: "BoardStitcher \<Rightarrow> bool" where
  reachable_new: "reachable new_BoardStitcher"
| reachable_addFrame: "reachable s \<Longrightarrow> reachable (addFrame frame s)"
| reachable_stitch: "reachable s \<Longrightarrow> reachable (snd (stitch B s))"
| reachable_clear: "reachable s \<Longrightarrow> reachable (clear s)"

subsection \<open>The specification's formulas\<close>

text \<open>
  The correlation score as the specification words it: the average, over the compared
  positions \<open>i\<close>, of \<open>1 - |leftStrip[i] - rightStrip[i + o]| / 255\<close>. The
  specification's left strip is the right edge of the left frame.
\<close>

definition specScore :: "nat list \<Rightarrow> nat list \<Rightarrow> nat \<Rightarrow> real" where
  "specScore leftStrip rightStrip o' =
     (let n = min (length leftStrip) (length rightStrip - o')
      in (\<Sum>i\<leftarrow>[0..<n]. 1 - \<bar>real (leftStrip ! i) - real (rightStrip ! (i + o'))\<bar> / 255)
         / real n)"

text \<open>The candidate offsets: from 0 up to, and not including, the shorter length less 20.\<close>

definition specOffsets :: "nat list \<Rightarrow> nat list \<Rightarrow> nat list" where
  "specOffsets leftStrip rightStrip = [0..<min (length leftStrip) (length rightStrip) - 20]"

text \<open>
  The composite size as the specification words it: every frame's width, less half the
  overlap width for each consecutive pair whose detection found an overlap, and the
  greatest frame height, with 20 pixels of padding on each side.
\<close>

definition halfOverlap :: "StitchFrame \<times> StitchFrame \<Rightarrow> real" where
  "halfOverlap pair =
     (case detectOverlap (fst pair) (snd pair) of
        Inr (Some overlap) \<Rightarrow> real_of_int (region_width overlap) / 2
      | _ \<Rightarrow> 0)"



subsection \<open>Test scenes\<close>

text \<open>A canvas of one opaque grey level, a canvas without a 2D context, and frames of them.\<close>

definition solidCanvas :: "nat \<Rightarrow> nat \<Rightarrow> nat \<Rightarrow> HTMLCanvasElement" where
  "solidCanvas v w h =
     \<lparr>width = w, height = h, context2d = Some (concat (replicate (w * h) [v, v, v, 255]))\<rparr>"

definition blindCanvas :: "nat \<Rightarrow> nat \<Rightarrow> HTMLCanvasElement" where
  "blindCanvas w h = \<lparr>width = w, height = h, context2d = None\<rparr>"

definition mkFrame :: "string \<Rightarrow> int \<Rightarrow> HTMLCanvasElement \<Rightarrow> real \<Rightarrow> StitchFrame" where
  "mkFrame name i c q =
     \<lparr>frame_id = name, index = i, canvas = c,
      imageData = (case context2d c of Some d \<Rightarrow> d | None \<Rightarrow> []),
      timestamp = 0, quality = q\<rparr>"

text \<open>A browser that never hands out a 2D context for a new canvas.\<close>

definition blindBrowser :: Browser where
  "blindBrowser =
     \<lparr>createCanvas = (\<lambda>w h. blindCanvas (nat \<lfloor>w\<rfloor>) (nat \<lfloor>h\<rfloor>)),
      draw = (\<lambda>op c. Inr c)\<rparr>"

text \<open>Three black frames, one 20 pixels wide and two of a single pixel, each one pixel high.\<close>

definition narrowFrames :: "StitchFrame list" where
  "narrowFrames =
     [mkFrame ''a'' 0 (solidCanvas 0 20 1) 0.9,
      mkFrame ''b'' 1 (solidCanvas 0 1 1) 0.9,
      mkFrame ''c'' 2 (solidCanvas 0 1 1) 0.9]"

text \<open>A black and a white frame, 60 by 1 pixels.\<close>

definition blackFrame :: StitchFrame where
  "blackFrame = mkFrame ''black'' 0 (solidCanvas 0 60 1) 0.9"

definition whiteFrame :: StitchFrame where
  "whiteFrame = mkFrame ''white'' 1 (solidCanvas 255 60 1) 0.9"


definition lowFrame :: StitchFrame where
  "lowFrame = mkFrame ''low'' 0 (solidCanvas 0 60 1) 0.2"

section \<open>Properties\<close>

subsection \<open>Edge strips\<close>



lemma edgeRow_prefix:
  assumes "j \<le> w" "y * w + w \<le> length e"
  shows "length (fold (\<lambda>px e. e[y * w + px := g px]) [0..<j] e) = length e \<and>
         (\<forall>k < length e. fold (\<lambda>px e. e[y * w + px := g px]) [0..<j] e ! k =
            (if y * w \<le> k \<and> k < y * w + j then g (k - y * w) else e ! k))"
  using assms
proof (induction j)
  case 0
  then show ?case by auto
next
  case (Suc j)
  then have IH: "length (fold (\<lambda>px e. e[y * w + px := g px]) [0..<j] e) = length e"
    "\<And>k. k < length e \<Longrightarrow> fold (\<lambda>px e. e[y * w + px := g px]) [0..<j] e ! k =
            (if y * w \<le> k \<and> k < y * w + j then g (k - y * w) else e ! k)"
    by auto
  show ?case
  proof (intro conjI allI impI)
    show "length (fold (\<lambda>px e. e[y * w + px := g px]) [0..<Suc j] e) = length e"
      using IH(1) by simp
  next
    fix k assume k: "k < length e"
    show "fold (\<lambda>px e. e[y * w + px := g px]) [0..<Suc j] e ! k =
            (if y * w \<le> k \<and> k < y * w + Suc j then g (k - y * w) else e ! k)"
    proof (cases "k = y * w + j")
      case True
      then show ?thesis using IH(1) k by simp
    next
      case False
      then show ?thesis using IH k by (auto simp: nth_list_update)
    qed
  qed
qed

lemma edgeRow_nth:
  assumes "y * w + w \<le> length e"
  shows "length (edgeRow data cw x w y e) = length e"
    and "k < length e \<Longrightarrow> edgeRow data cw x w y e ! k =
            (if y * w \<le> k \<and> k < y * w + w
             then gray data ((int y * int cw + x + int (k - y * w)) * 4) else e ! k)"
  using edgeRow_prefix[OF le_refl assms, of "\<lambda>px. gray data ((int y * int cw + x + int px) * 4)"]
  by (simp_all add: edgeRow_def)

lemma edgeRows_nth:
  assumes "m \<le> h" "length e = h * w" "0 < w"
  shows "length (fold (edgeRow data cw x w) [0..<m] e) = h * w \<and>
         (\<forall>k < h * w. fold (edgeRow data cw x w) [0..<m] e ! k =
            (if k < m * w
             then gray data ((int (k div w) * int cw + x + int (k mod w)) * 4) else e ! k))"
  using assms
proof (induction m)
  case 0
  then show ?case by simp
next
  case (Suc m)
  let ?r = "fold (edgeRow data cw x w) [0..<m] e"
  from Suc have len: "length ?r = h * w"
    and nth: "\<And>k. k < h * w \<Longrightarrow> ?r ! k =
            (if k < m * w
             then gray data ((int (k div w) * int cw + x + int (k mod w)) * 4) else e ! k)"
    by auto
  from Suc.prems have "Suc m * w \<le> h * w" by (intro mult_le_mono1) simp
  then have fits: "m * w + w \<le> length ?r" using len by simp
  show ?case
  proof (intro conjI allI impI)
    show "length (fold (edgeRow data cw x w) [0..<Suc m] e) = h * w"
      using edgeRow_nth(1)[OF fits] len by simp
  next
    fix k assume k: "k < h * w"
    then have k': "k < length ?r" using len by simp
    show "fold (edgeRow data cw x w) [0..<Suc m] e ! k =
            (if k < Suc m * w
             then gray data ((int (k div w) * int cw + x + int (k mod w)) * 4) else e ! k)"
    proof (cases "m * w \<le> k \<and> k < m * w + w")
      case True
      then have "k div w = m" using \<open>0 < w\<close>
        by (metis add.commute div_nat_eqI mult.commute mult_Suc)
      moreover from this have "k mod w = k - m * w"
        by (metis add_diff_cancel_left' mult.commute mult_div_mod_eq)
      ultimately show ?thesis using True edgeRow_nth(2)[OF fits k'] by simp
    next
      case False
      then show ?thesis using edgeRow_nth(2)[OF fits k'] nth[OF k] by auto
    qed
  qed
qed

lemma extractVerticalEdge_strip:
  assumes "extractVerticalEdge c side w = Inr (Some strip)" "0 < w"
  shows "\<exists>bitmap. context2d c = Some bitmap \<and> 0 < width c \<and> 0 < height c \<and>
           length strip = height c * w \<and>
           (\<forall>k < height c * w.
              strip ! k =
                gray bitmap ((int (k div w) * int (width c)
                              + (if side = right then int (width c) - int w else 0)
                              + int (k mod w)) * 4))"
proof -
  from assms(1) obtain bitmap where b: "context2d c = Some bitmap"
    by (auto simp: extractVerticalEdge_def split: option.splits)
  with assms(1) have pos: "0 < width c" "0 < height c"
    by (auto simp: extractVerticalEdge_def getImageData_def split: if_splits)
  let ?x = "if side = right then int (width c) - int w else 0"
  from assms(1) b pos have s: "strip = fold (edgeRow bitmap (width c) ?x w) [0..<height c]
                                    (replicate (height c * w) 0)"
    by (simp add: extractVerticalEdge_def getImageData_def Let_def)
  have "length (replicate (height c * w) (0::nat)) = height c * w" by simp
  from edgeRows_nth[OF le_refl this \<open>0 < w\<close>, of bitmap "width c" ?x] s b pos
  show ?thesis by auto
qed


subsection \<open>Correlation\<close>

lemma correlate_fold:
  "fold (\<lambda>i (sum, count). (sum + (1 - d i / 255), Suc count)) xs (s0, c0)
   = (s0 + (\<Sum>i\<leftarrow>xs. 1 - d i / (255::real)), c0 + length xs)"
  by (induction xs arbitrary: s0 c0) (simp_all add: add.assoc)

lemma correlateEdges_specScore:
  "correlateEdges edge1 edge2 offset =
     (if 0 < min (length edge1) (length edge2 - offset)
      then specScore edge1 edge2 offset else 0)"
proof -
  have n: "nat (min (int (length edge1)) (int (length edge2) - int offset))
           = min (length edge1) (length edge2 - offset)"
    by auto
  show ?thesis
    unfolding correlateEdges_def n specScore_def Let_def
    by (simp add: correlate_fold)
qed

lemma specOffsets_compared:
  assumes "o' \<in> set (specOffsets edge1 edge2)"
  shows "0 < min (length edge1) (length edge2 - o')"
  using assms by (auto simp: specOffsets_def)



lemma nat_min_offsets:
  "[0..<nat (min (int a) (int b) - 20)] = [0..<min a b - 20]"
proof -
  have "nat (min (int a) (int b) - 20) = min a b - 20" by auto
  then show ?thesis by simp
qed


lemma detectOverlap_strips:
  assumes "extractVerticalEdge (canvas frame1) right 60 = Inr (Some rightEdge)"
    and "extractVerticalEdge (canvas frame2) left 60 = Inr (Some leftEdge)"
    and "bestCorrelation rightEdge leftEdge = (bestOffset, bestScore)"
  shows "detectOverlap frame1 frame2 =
     (if bestScore < 0.5 then Inr None
      else Inr (Some
        \<lparr>frame1Id = frame_id frame1,
         frame2Id = frame_id frame2,
         region_x = int (width (canvas frame1)) - 60,
         region_y = int bestOffset,
         region_width = 60,
         region_height = int (height (canvas frame1)) - \<bar>int bestOffset\<bar>,
         confidence = bestScore\<rparr>))"
  using assms by (simp add: detectOverlap_def Let_def)

lemma detectOverlap_found:
  assumes "detectOverlap frame1 frame2 = Inr (Some overlap)"
  shows "region_width overlap = 60" and "1/2 \<le> confidence overlap"
  using assms
  by (auto simp: detectOverlap_def Let_def
      split: sum.splits option.splits prod.splits if_splits)

subsection \<open>Solid frames\<close>

lemma length_solid: "length (concat (replicate n [a, b, c, d])) = 4 * n"
  by (induction n) simp_all

lemma nth_solid:
  "k < n \<Longrightarrow> concat (replicate n [a, b, c, d]) ! (4 * k) = a \<and>
             concat (replicate n [a, b, c, d]) ! (4 * k + 1) = b \<and>
             concat (replicate n [a, b, c, d]) ! (4 * k + 2) = c"
proof (induction n arbitrary: k)
  case 0
  then show ?case by simp
next
  case (Suc n)
  show ?case
  proof (cases k)
    case 0
    then show ?thesis by simp
  next
    case (Suc j)
    with Suc.prems have "j < n" by simp
    from Suc.IH[OF this] Suc show ?thesis
      by (simp add: nth_Cons')
  qed
qed

lemma toUint8Clamp_byte: "v \<le> 255 \<Longrightarrow> toUint8Clamp (real v) = v"
  by (auto simp: toUint8Clamp_def Let_def)

lemma item_solid:
  assumes "j < n"
  shows "item (concat (replicate n [a, b, c, d])) (int j * 4) = Some a"
    and "item (concat (replicate n [a, b, c, d])) (int j * 4 + 1) = Some b"
    and "item (concat (replicate n [a, b, c, d])) (int j * 4 + 2) = Some c"
proof -
  have i0: "nat (int j * 4) = 4 * j" "nat (int j * 4 + 1) = 4 * j + 1"
    "nat (int j * 4 + 2) = 4 * j + 2" by arith+
  have r: "int j * 4 < int (4 * n)" "int j * 4 + 1 < int (4 * n)" "int j * 4 + 2 < int (4 * n)"
    using assms by arith+
  have p: "0 \<le> int j * 4" "0 \<le> int j * 4 + 1" "0 \<le> int j * 4 + 2" by simp_all
  note n = nth_solid[OF assms, of a b c d]
  show "item (concat (replicate n [a, b, c, d])) (int j * 4) = Some a"
    unfolding item_def length_solid i0 using r(1) p(1) n by simp
  show "item (concat (replicate n [a, b, c, d])) (int j * 4 + 1) = Some b"
    unfolding item_def length_solid i0 using r(2) p(2) n by simp
  show "item (concat (replicate n [a, b, c, d])) (int j * 4 + 2) = Some c"
    unfolding item_def length_solid i0 using r(3) p(3) n by simp
qed

lemma item_outside:
  "\<not> (0 \<le> k \<and> k < int n) \<Longrightarrow> item (concat (replicate n [a, b, c, d])) (k * 4) = None"
  unfolding item_def length_solid by auto

lemma gray_solid:
  assumes "v \<le> 255"
  shows "gray (concat (replicate n [v, v, v, 255])) (k * 4) =
           (if 0 \<le> k \<and> k < int n then v else 0)"
proof (cases "0 \<le> k \<and> k < int n")
  case True
  then obtain j where j: "k = int j" "j < n"
    by (intro that[of "nat k"]) auto
  have "(real v + real v + real v) / 3 = real v" by simp
  then have "gray (concat (replicate n [v, v, v, 255])) (int j * 4) = v"
    unfolding gray_def item_solid[OF j(2)] using toUint8Clamp_byte[OF assms] by simp
  with j show ?thesis by simp
next
  case False
  have "item (concat (replicate n [v, v, v, 255])) (k * 4) = None"
    using False by (rule item_outside)
  then have "gray (concat (replicate n [v, v, v, 255])) (k * 4) = 0"
    unfolding gray_def by simp
  with False show ?thesis by auto
qed

lemma extract_solid:
  assumes "v \<le> 255" "0 < w" "0 < h" "v = 0 \<or> 60 \<le> w"
  shows "extractVerticalEdge (solidCanvas v w h) side 60 = Inr (Some (replicate (h * 60) v))"
proof -
  obtain strip where s: "extractVerticalEdge (solidCanvas v w h) side 60 = Inr (Some strip)"
    using assms(2,3)
    by (simp add: extractVerticalEdge_def solidCanvas_def getImageData_def Let_def)
  from extractVerticalEdge_strip[OF s]
  have len: "length strip = h * 60"
    and nth: "\<And>k. k < h * 60 \<Longrightarrow> strip ! k =
         gray (concat (replicate (w * h) [v, v, v, 255]))
              ((int (k div 60) * int w + (if side = right then int w - 60 else 0)
                + int (k mod 60)) * 4)"
    by (auto simp: solidCanvas_def)
  have "strip ! k = v" if k: "k < h * 60" for k
  proof -
    define p where
      "p = int (k div 60) * int w + (if side = right then int w - 60 else 0) + int (k mod 60)"
    have g: "gray (concat (replicate (w * h) [v, v, v, 255])) (p * 4) =
               (if 0 \<le> p \<and> p < int (w * h) then v else 0)"
      by (rule gray_solid[OF assms(1)])
    have "(if 0 \<le> p \<and> p < int (w * h) then v else 0) = v"
    proof (cases "v = 0")
      case True
      then show ?thesis by simp
    next
      case False
      with assms have w: "60 \<le> w" by simp
      from k have y: "k div 60 < h" by (simp add: less_mult_imp_div_less)
      have m: "int (k mod 60) < 60" by simp
      have "0 \<le> p" using w by (simp add: p_def)
      moreover have "p < int (k div 60) * int w + int w" using w m by (auto simp: p_def)
      then have "p < (int (k div 60) + 1) * int w" by (simp add: algebra_simps)
      moreover have "(int (k div 60) + 1) * int w \<le> int h * int w"
        using y by (intro mult_right_mono) simp_all
      ultimately have "0 \<le> p \<and> p < int (w * h)" by (simp add: mult.commute)
      then show ?thesis by simp
    qed
    with g have "gray (concat (replicate (w * h) [v, v, v, 255])) (p * 4) = v" by simp
    with nth[OF k] show ?thesis unfolding p_def by simp
  qed
  with len have "strip = replicate (h * 60) v"
    by (intro nth_equalityI) simp_all
  with s show ?thesis by simp
qed

lemma specScore_solid:
  assumes "0 < min a (b - o')"
  shows "specScore (replicate a u) (replicate b v) o' = 1 - \<bar>real u - real v\<bar> / 255"
proof -
  let ?n = "min a (b - o')"
  have "(\<Sum>i\<leftarrow>[0..<?n]. 1 - \<bar>real (replicate a u ! i) - real (replicate b v ! (i + o'))\<bar> / 255)
        = (\<Sum>i\<leftarrow>[0..<?n]. 1 - \<bar>real u - real v\<bar> / 255)"
    by (intro arg_cong[where f = sum_list] map_cong) auto
  also have "\<dots> = real ?n * (1 - \<bar>real u - real v\<bar> / 255)"
    by (simp add: sum_list_triv)
  finally show ?thesis using assms by (simp add: specScore_def Let_def)
qed

lemma best_fold_const:
  assumes "\<forall>x \<in> set xs. sc x = (c::real)" "bs \<le> c"
  shows "fold (\<lambda>offset (bestOffset, bestScore).
             let score = sc offset
             in if score > bestScore then (offset, score) else (bestOffset, bestScore))
          xs (bo, bs) = (if xs \<noteq> [] \<and> bs < c then (hd xs, c) else (bo, bs))"
  using assms
proof (induction xs arbitrary: bo bs)
  case Nil
  then show ?case by simp
next
  case (Cons x xs)
  then have x: "sc x = c" and rest: "\<forall>x \<in> set xs. sc x = c" by auto
  show ?case
  proof (cases "bs < c")
    case True
    with x Cons.IH[OF rest, of c x] show ?thesis by (simp add: Let_def)
  next
    case False
    with x Cons.IH[OF rest Cons.prems(2), of bo] show ?thesis by (simp add: Let_def)
  qed
qed

lemma bestCorrelation_solid:
  assumes "20 < min a b" "u \<le> 255" "v \<le> 255"
  shows "bestCorrelation (replicate a u) (replicate b v) = (0, 1 - \<bar>real u - real v\<bar> / 255)"
proof -
  let ?c = "1 - \<bar>real u - real v\<bar> / 255"
  let ?xs = "specOffsets (replicate a u) (replicate b v)"
  have sc: "\<forall>x \<in> set ?xs. correlateEdges (replicate a u) (replicate b v) x = ?c"
  proof
    fix x assume x: "x \<in> set ?xs"
    from specOffsets_compared[OF x] have "0 < min a (b - x)" by simp
    with specScore_solid[OF this, of u v] show
      "correlateEdges (replicate a u) (replicate b v) x = ?c"
      by (simp add: correlateEdges_specScore)
  qed
  from assms have ne: "?xs \<noteq> []" "hd ?xs = 0"
    by (auto simp: specOffsets_def)
  have b: "bestCorrelation (replicate a u) (replicate b v) =
      fold (\<lambda>offset (bestOffset, bestScore).
             let score = correlateEdges (replicate a u) (replicate b v) offset
             in if score > bestScore then (offset, score) else (bestOffset, bestScore))
          ?xs (0, 0)"
    by (simp add: bestCorrelation_def specOffsets_def nat_min_offsets)
  from assms have "\<bar>real u - real v\<bar> \<le> 255" by linarith
  then have c: "0 \<le> ?c" by simp
  show ?thesis
  proof (cases "0 < ?c")
    case True
    with best_fold_const[OF sc c, of 0] ne b show ?thesis by simp
  next
    case False
    with c have "?c = 0" by simp
    with best_fold_const[OF sc c, of 0] ne b show ?thesis by simp
  qed
qed

lemma detectOverlap_solid:
  assumes "u \<le> 255" "v \<le> 255" "0 < w1" "0 < h1" "0 < w2" "0 < h2"
    and "u = 0 \<or> 60 \<le> w1" "v = 0 \<or> 60 \<le> w2"
  shows "detectOverlap (mkFrame n1 i1 (solidCanvas u w1 h1) q1)
                       (mkFrame n2 i2 (solidCanvas v w2 h2) q2) =
     (if 1 - \<bar>real u - real v\<bar> / 255 < 1/2 then Inr None
      else Inr (Some
        \<lparr>frame1Id = n1, frame2Id = n2, region_x = int w1 - 60, region_y = 0,
         region_width = 60, region_height = int h1,
         confidence = 1 - \<bar>real u - real v\<bar> / 255\<rparr>))"
proof -
  have c: "canvas (mkFrame n1 i1 (solidCanvas u w1 h1) q1) = solidCanvas u w1 h1"
    "canvas (mkFrame n2 i2 (solidCanvas v w2 h2) q2) = solidCanvas v w2 h2"
    by (simp_all add: mkFrame_def)
  have e1: "extractVerticalEdge (canvas (mkFrame n1 i1 (solidCanvas u w1 h1) q1)) right 60
            = Inr (Some (replicate (h1 * 60) u))"
    unfolding c by (rule extract_solid[OF assms(1,3,4,7)])
  have e2: "extractVerticalEdge (canvas (mkFrame n2 i2 (solidCanvas v w2 h2) q2)) left 60
            = Inr (Some (replicate (h2 * 60) v))"
    unfolding c by (rule extract_solid[OF assms(2,5,6,8)])
  have "20 < min (h1 * 60) (h2 * 60)" using assms by simp
  from bestCorrelation_solid[OF this assms(1,2)] detectOverlap_strips[OF e1 e2]
  show ?thesis by (simp add: mkFrame_def solidCanvas_def)
qed

subsection \<open>Composite size\<close>

lemma halfOverlap_cases:
  "halfOverlap (f1, f2) =
     (case detectOverlap f1 f2 of Inr (Some overlap) \<Rightarrow> 30 | _ \<Rightarrow> 0)"
  by (auto simp: halfOverlap_def split: sum.splits option.splits dest: detectOverlap_found(1))

lemma detectOverlaps_found:
  assumes "detectOverlaps fs acc = (None, found)"
  shows "length acc \<le> length found \<and>
         length found \<le> length acc + (length fs - 1) \<and>
         (\<Sum>pair\<leftarrow>zip fs (tl fs). halfOverlap pair) = 30 * real (length found - length acc) \<and>
         (\<forall>overlap \<in> set found. overlap \<in> set acc \<or> region_width overlap = 60)"
  using assms
proof (induction fs acc rule: detectOverlaps.induct)
  case (1 f1 f2 fs acc)
  show ?case
  proof (cases "detectOverlap f1 f2")
    case (Inl e)
    with "1.prems" show ?thesis by simp
  next
    case (Inr r)
    show ?thesis
    proof (cases r)
      case None
      with Inr "1.prems" have "detectOverlaps (f2 # fs) acc = (None, found)" by simp
      from "1.IH"(1)[OF Inr None this] Inr None show ?thesis
        by (simp add: halfOverlap_cases)
    next
      case (Some overlap)
      with Inr "1.prems" have d: "detectOverlaps (f2 # fs) (acc @ [overlap]) = (None, found)"
        by simp
      from Inr Some have w: "region_width overlap = 60"
        by (simp add: detectOverlap_found(1))
      from "1.IH"(2)[OF Inr Some d] Inr Some w show ?thesis
        by (auto simp: halfOverlap_cases of_nat_diff algebra_simps)
    qed
  qed
qed simp_all

lemma size_fold:
  "fold (\<lambda>i (totalWidth, maxHeight). (totalWidth + c i, max maxHeight (g i))) xs (a, b)
   = (a + (\<Sum>i\<leftarrow>xs. c i), fold (\<lambda>i m. max m (g i)) xs (b::real))"
  for a :: real
  by (induction xs arbitrary: a b) (simp_all add: add.assoc)

lemma max_fold:
  "fold (\<lambda>i m. max m (g i)) xs b = Max (insert (b::real) (g ` set xs))"
proof (induction xs arbitrary: b)
  case Nil
  then show ?case by simp
next
  case (Cons x xs)
  have "Max (insert (max b (g x)) (g ` set xs)) = Max (insert b (insert (g x) (g ` set xs)))"
    by (cases "xs = []") (simp_all add: max.assoc Max_insert)
  with Cons show ?case by simp
qed

lemma overlapWidth_at:
  assumes "\<forall>overlap \<in> set ovs. region_width overlap = 60" "1 \<le> i"
  shows "(case item ovs (int i - 1) of
            Some overlap \<Rightarrow> real_of_int (region_width overlap) | None \<Rightarrow> 0)
         = (if i - 1 < length ovs then 60 else 0)"
proof -
  have idx: "int i - 1 = int (i - 1)" using assms(2) by simp
  show ?thesis
  proof (cases "i - 1 < length ovs")
    case True
    then have "ovs ! (i - 1) \<in> set ovs" by simp
    with assms(1) have "region_width (ovs ! (i - 1)) = 60" by blast
    then show ?thesis unfolding idx item_def using True by simp
  next
    case False
    then show ?thesis unfolding idx item_def by simp
  qed
qed

lemma sum_below:
  "(\<Sum>i\<leftarrow>[0..<m]. if i < k then c else 0) = real (min k m) * (c::real)"
proof (induction m)
  case 0
  then show ?case by simp
next
  case (Suc m)
  show ?case
  proof (cases "m < k")
    case True
    then have "min k (Suc m) = Suc m" "min k m = m" by simp_all
    with Suc True show ?thesis by (simp add: algebra_simps)
  next
    case False
    then have "min k (Suc m) = k" "min k m = k" by simp_all
    with Suc False show ?thesis by simp
  qed
qed

lemma sum_first:
  assumes "k \<le> m"
  shows "(\<Sum>i\<leftarrow>[Suc 0..<Suc m]. if i - Suc 0 < k then c else 0) = real k * (c::real)"
proof -
  have "[Suc 0..<Suc m] = map Suc [0..<m]" by (simp only: map_Suc_upt)
  then have "(\<Sum>i\<leftarrow>[Suc 0..<Suc m]. if i - Suc 0 < k then c else 0)
             = (\<Sum>i\<leftarrow>[0..<m]. if i < k then c else 0)"
    by (simp add: comp_def del: upt_Suc)
  with sum_below[where m = m and k = k and c = c] assms show ?thesis by (simp add: min_def)
qed

lemma sum_nth:
  assumes "fs \<noteq> []"
  shows "g (fs ! 0) + (\<Sum>i\<leftarrow>[1..<length fs]. g (fs ! i)) = (\<Sum>f\<leftarrow>fs. (g f :: real))"
proof -
  from assms have "[0..<length fs] = 0 # [1..<length fs]"
    by (simp add: upt_conv_Cons)
  then have "g (fs ! 0) + (\<Sum>i\<leftarrow>[1..<length fs]. g (fs ! i)) = (\<Sum>i\<leftarrow>[0..<length fs]. g (fs ! i))"
    by simp
  also have "\<dots> = (\<Sum>f\<leftarrow>map (\<lambda>i. fs ! i) [0..<length fs]. g f)"
    by (simp add: comp_def)
  also have "\<dots> = (\<Sum>f\<leftarrow>fs. g f)" by (simp only: map_nth)
  finally show ?thesis .
qed

lemma max_nth:
  assumes "fs \<noteq> []"
  shows "insert (g (fs ! 0)) ((\<lambda>i. g (fs ! i)) ` set [1..<length fs]) = set (map g fs)"
proof -
  from assms have "[0..<length fs] = 0 # [1..<length fs]"
    by (simp add: upt_conv_Cons)
  then have "insert (g (fs ! 0)) ((\<lambda>i. g (fs ! i)) ` set [1..<length fs])
             = (\<lambda>i. g (fs ! i)) ` set [0..<length fs]"
    by simp
  also have "\<dots> = set (map g (map (\<lambda>i. fs ! i) [0..<length fs]))"
    by (simp add: image_comp comp_def)
  also have "\<dots> = set (map g fs)" by (simp only: map_nth)
  finally show ?thesis .
qed

lemma compositionSize_found:
  assumes ne: "fs \<noteq> []"
    and w: "\<forall>overlap \<in> set ovs. region_width overlap = 60"
    and len: "length ovs \<le> length fs - 1"
  shows "compositionSize fs ovs =
     ((\<Sum>f\<leftarrow>fs. real (width (canvas f))) - 30 * real (length ovs) + 40,
      Max (set (map (\<lambda>f. real (height (canvas f))) fs)) + 40)"
proof -
  let ?c = "\<lambda>i. real (width (canvas (fs ! i)))
               - (case item ovs (int i - 1) of
                    Some overlap \<Rightarrow> real_of_int (region_width overlap) | None \<Rightarrow> 0) * 0.5"
  let ?g = "\<lambda>i. real (height (canvas (fs ! i)))"
  have size: "compositionSize fs ovs =
      (real (width (canvas (fs ! 0))) + (\<Sum>i\<leftarrow>[1..<length fs]. ?c i) + 40,
       fold (\<lambda>i m. max m (?g i)) [1..<length fs] (real (height (canvas (fs ! 0)))) + 40)"
    unfolding compositionSize_def Let_def size_fold prod.case by simp
  have ci: "?c i = real (width (canvas (fs ! i))) - (if i - 1 < length ovs then 30 else 0)"
    if "i \<in> set [1..<length fs]" for i
  proof -
    from that have "1 \<le> i" by simp
    from overlapWidth_at[OF w this] show ?thesis by simp
  qed
  have "(\<Sum>i\<leftarrow>[1..<length fs]. ?c i)
        = (\<Sum>i\<leftarrow>[1..<length fs]. real (width (canvas (fs ! i)))
                                    - (if i - 1 < length ovs then 30 else 0))"
    by (intro arg_cong[where f = sum_list] map_cong refl ci)
  also have "\<dots> = (\<Sum>i\<leftarrow>[1..<length fs]. real (width (canvas (fs ! i))))
                  - (\<Sum>i\<leftarrow>[1..<length fs]. if i - 1 < length ovs then 30 else 0)"
    by (simp add: sum_list_subtractf)
  also have "(\<Sum>i\<leftarrow>[1..<length fs]. if i - 1 < length ovs then 30 else (0::real))
             = real (length ovs) * 30"
  proof -
    from ne have "length fs = Suc (length fs - 1)" by (cases fs) simp_all
    then have "[1..<length fs] = [Suc 0..<Suc (length fs - 1)]" by simp
    then show ?thesis using sum_first[OF len, of 30] by (simp del: upt_Suc)
  qed
  finally have tw: "real (width (canvas (fs ! 0))) + (\<Sum>i\<leftarrow>[1..<length fs]. ?c i)
        = (\<Sum>f\<leftarrow>fs. real (width (canvas f))) - 30 * real (length ovs)"
    using sum_nth[OF ne, of "\<lambda>f. real (width (canvas f))"] by simp
  have mh: "fold (\<lambda>i m. max m (?g i)) [1..<length fs] (real (height (canvas (fs ! 0))))
        = Max (set (map (\<lambda>f. real (height (canvas f))) fs))"
    unfolding max_fold using max_nth[OF ne, of "\<lambda>f. real (height (canvas f))"] by simp
  show ?thesis unfolding size tw mh by simp
qed

subsection \<open>Failures of stitch\<close>

lemma detectOverlap_error:
  "detectOverlap f1 f2 = Inl e \<Longrightarrow> e = Thrown IndexSizeError"
  by (auto simp: detectOverlap_def extractVerticalEdge_def getImageData_def Let_def
      split: option.splits sum.splits if_splits prod.splits)

lemma detectOverlaps_error:
  "detectOverlaps fs acc = (Some e, found) \<Longrightarrow> e = Thrown IndexSizeError"
  by (induction fs acc rule: detectOverlaps.induct)
     (auto split: sum.splits option.splits dest: detectOverlap_error)

lemma cropToContent_error:
  "cropToContent B c = Inl e \<Longrightarrow> \<exists>x. e = Thrown x"
  by (auto simp: cropToContent_def getImageData_def Let_def
      split: option.splits sum.splits if_splits prod.splits)

lemma stitch_frames: "frames (snd (stitch B s)) = frames s"
  by (auto simp: stitch_def Let_def split: option.splits sum.splits prod.splits)



lemma stitch_error:
  assumes "fst (stitch B s) = Inl e"
  shows "e = Error ''No frames to stitch'' \<and> length (frames s) = 0
   \<or> e = Error ''Failed to get canvas context'' \<and> 2 \<le> length (frames s)
   \<or> (\<exists>x. e = Thrown x) \<and> 2 \<le> length (frames s)"
proof -
  consider "length (frames s) = 0" | "length (frames s) = 1" | "2 \<le> length (frames s)"
    by linarith
  then show ?thesis
  proof cases
    case 1
    with assms show ?thesis by (simp add: stitch_def)
  next
    case 2
    with assms show ?thesis by (simp add: stitch_def)
  next
    case 3
    then have n: "length (frames s) \<noteq> 0" "length (frames s) \<noteq> 1" by auto
    obtain err found where d: "detectOverlaps (frames s) [] = (err, found)"
      by (cases "detectOverlaps (frames s) []")
    show ?thesis
    proof (cases err)
      case (Some e')
      with assms n d have "e = e'" by (simp add: stitch_def)
      with Some d detectOverlaps_error show ?thesis using 3 by blast
    next
      case None
      with assms n d 3 show ?thesis
        by (auto simp: stitch_def Let_def split: option.splits sum.splits prod.splits
            dest: cropToContent_error)
    qed
  qed
qed

subsection \<open>What stitch does to the overlaps\<close>

lemma overlaps_stitch:
  "overlaps (snd (stitch B s)) =
     (if length (frames s) < 2 then overlaps s else snd (detectOverlaps (frames s) []))"
proof -
  consider "length (frames s) = 0" | "length (frames s) = 1" | "2 \<le> length (frames s)"
    by linarith
  then show ?thesis
  proof cases
    case 1
    then show ?thesis by (simp add: stitch_def)
  next
    case 2
    then show ?thesis by (simp add: stitch_def)
  next
    case 3
    then have n: "length (frames s) \<noteq> 0" "length (frames s) \<noteq> 1" "\<not> length (frames s) < 2"
      by auto
    obtain err found where d: "detectOverlaps (frames s) [] = (err, found)"
      by (cases "detectOverlaps (frames s) []")
    show ?thesis
    proof (cases err)
      case (Some e)
      with n d show ?thesis by (simp add: stitch_def)
    next
      case None
      with n d show ?thesis
        by (auto simp: stitch_def Let_def split: option.splits sum.splits prod.splits)
    qed
  qed
qed

lemma stitch_blind:
  assumes "2 \<le> length (frames s)" "detectOverlaps (frames s) [] = (None, found)"
  shows "stitch blindBrowser s =
           (Inl (Error ''Failed to get canvas context''), s\<lparr>overlaps := found\<rparr>)"
proof -
  from assms(1) have n: "length (frames s) \<noteq> 0" "length (frames s) \<noteq> 1" by auto
  show ?thesis
    using n assms(2)
    by (simp add: stitch_def Let_def blindBrowser_def blindCanvas_def split: prod.splits)
qed

lemma detectOverlaps_confidence:
  assumes "detectOverlaps fs acc = (err, found)"
  shows "\<forall>overlap \<in> set found. overlap \<in> set acc \<or> 1/2 \<le> confidence overlap"
  using assms
proof (induction fs acc rule: detectOverlaps.induct)
  case (1 f1 f2 fs acc)
  show ?case
  proof (cases "detectOverlap f1 f2")
    case (Inl e)
    with "1.prems" show ?thesis by auto
  next
    case (Inr r)
    show ?thesis
    proof (cases r)
      case None
      with Inr "1.prems" have "detectOverlaps (f2 # fs) acc = (err, found)" by simp
      from "1.IH"(1)[OF Inr None this] show ?thesis .
    next
      case (Some overlap)
      with Inr "1.prems" have d: "detectOverlaps (f2 # fs) (acc @ [overlap]) = (err, found)"
        by simp
      from Inr Some have "detectOverlap f1 f2 = Inr (Some overlap)" by simp
      then have "1/2 \<le> confidence overlap" by (rule detectOverlap_found(2))
      with "1.IH"(2)[OF Inr Some d] show ?thesis by auto
    qed
  qed
qed auto

lemma reachable_confidence:
  "reachable s \<Longrightarrow> \<forall>overlap \<in> set (overlaps s). 1/2 \<le> confidence overlap"
proof (induction rule: reachable.induct)
  case reachable_new
  then show ?case by (simp add: new_BoardStitcher_def)
next
  case (reachable_addFrame s frame)
  then show ?case by (simp add: addFrame_def)
next
  case (reachable_stitch s B)
  obtain err found where d: "detectOverlaps (frames s) [] = (err, found)"
    by (cases "detectOverlaps (frames s) []")
  from detectOverlaps_confidence[OF d] have "\<forall>overlap \<in> set found. 1/2 \<le> confidence overlap"
    by simp
  with reachable_stitch d show ?case by (simp add: overlaps_stitch)
next
  case (reachable_clear s)
  then show ?case by (simp add: clear_def)
qed

subsection \<open>The test scenes\<close>

lemma narrow_overlaps:
  "detectOverlaps narrowFrames [] =
     (None,
      [\<lparr>frame1Id = ''a'', frame2Id = ''b'', region_x = - 40, region_y = 0,
        region_width = 60, region_height = 1, confidence = 1\<rparr>,
       \<lparr>frame1Id = ''b'', frame2Id = ''c'', region_x = - 59, region_y = 0,
        region_width = 60, region_height = 1, confidence = 1\<rparr>])"
  by (simp add: narrowFrames_def detectOverlap_solid)

lemma black_white_overlap: "detectOverlap blackFrame whiteFrame = Inr None"
  by (simp add: blackFrame_def whiteFrame_def detectOverlap_solid)

lemma black_black_overlap:
  "detectOverlap blackFrame blackFrame =
     Inr (Some \<lparr>frame1Id = ''black'', frame2Id = ''black'', region_x = 0, region_y = 0,
                region_width = 60, region_height = 1, confidence = 1\<rparr>)"
  by (simp add: blackFrame_def detectOverlap_solid)



lemma frames_examples:
  "frames (addFrame blackFrame new_BoardStitcher) = [blackFrame]"
  "frames (addFrame whiteFrame (addFrame blackFrame new_BoardStitcher)) = [blackFrame, whiteFrame]"
  "frames (addFrame blackFrame (addFrame blackFrame new_BoardStitcher)) = [blackFrame, blackFrame]"
  by (simp_all add: addFrame_def new_BoardStitcher_def blackFrame_def whiteFrame_def mkFrame_def)

subsection \<open>Rounding to a byte\<close>




subsection \<open>The size computed from the regions found\<close>

lemma sum_member:
  assumes "f \<in> set fs" "\<forall>g \<in> set fs. c \<le> w g"
  shows "w f + c * (length fs - 1) \<le> (\<Sum>g\<leftarrow>fs. (w g :: nat))"
  using assms
proof (induction fs)
  case Nil
  then show ?case by simp
next
  case (Cons a fs)
  have all: "c * length fs \<le> (\<Sum>g\<leftarrow>fs. w g)"
    using Cons.prems(2) by (induction fs) auto
  show ?case
  proof (cases "f = a")
    case True
    with all show ?thesis by simp
  next
    case False
    with Cons.prems have "f \<in> set fs" by simp
    then have "fs \<noteq> []" by auto
    then have l: "length fs = Suc (length fs - 1)" by (cases fs) simp_all
    from Cons.IH[OF \<open>f \<in> set fs\<close>] Cons.prems(2)
    have "w f + c * (length fs - 1) \<le> (\<Sum>g\<leftarrow>fs. w g)" by simp
    moreover have "c \<le> w a" using Cons.prems(2) by simp
    ultimately have "w f + c * (length fs - 1) + c \<le> w a + (\<Sum>g\<leftarrow>fs. w g)" by linarith
    moreover have "c * length fs = c * (length fs - 1) + c" using l by (metis mult_Suc_right add.commute)
    ultimately show ?thesis by simp
  qed
qed

lemma compositionSize_detected:
  assumes "2 \<le> length fs" "detectOverlaps fs [] = (None, found)"
  shows "compositionSize fs found =
     ((\<Sum>f\<leftarrow>fs. real (width (canvas f))) - 30 * real (length found) + 40,
      Max (set (map (\<lambda>f. real (height (canvas f))) fs)) + 40)"
    and "(\<Sum>pair\<leftarrow>zip fs (tl fs). halfOverlap pair) = 30 * real (length found)"
    and "length found \<le> length fs - 1"
proof -
  from assms(1) have ne: "fs \<noteq> []" by auto
  from detectOverlaps_found[OF assms(2)]
  have len: "length found \<le> length fs - 1"
    and half: "(\<Sum>pair\<leftarrow>zip fs (tl fs). halfOverlap pair) = 30 * real (length found)"
    and w: "\<forall>overlap \<in> set found. region_width overlap = 60"
    by simp_all
  from compositionSize_found[OF ne w len] show "compositionSize fs found =
     ((\<Sum>f\<leftarrow>fs. real (width (canvas f))) - 30 * real (length found) + 40,
      Max (set (map (\<lambda>f. real (height (canvas f))) fs)) + 40)" .
  from half show "(\<Sum>pair\<leftarrow>zip fs (tl fs). halfOverlap pair) = 30 * real (length found)" .
  from len show "length found \<le> length fs - 1" .
qed

subsection \<open>How many regions a stitcher holds\<close>

lemma detectOverlaps_length:
  assumes "detectOverlaps fs acc = (err, found)"
  shows "length found \<le> length acc + (length fs - 1)"
  using assms
proof (induction fs acc rule: detectOverlaps.induct)
  case (1 f1 f2 fs acc)
  show ?case
  proof (cases "detectOverlap f1 f2")
    case (Inl e)
    with "1.prems" show ?thesis by auto
  next
    case (Inr r)
    show ?thesis
    proof (cases r)
      case None
      with Inr "1.prems" have "detectOverlaps (f2 # fs) acc = (err, found)" by simp
      from "1.IH"(1)[OF Inr None this] show ?thesis by simp
    next
      case (Some overlap)
      with Inr "1.prems" have d: "detectOverlaps (f2 # fs) (acc @ [overlap]) = (err, found)"
        by simp
      from "1.IH"(2)[OF Inr Some d] show ?thesis by simp
    qed
  qed
qed auto

lemma reachable_overlaps_length:
  "reachable s \<Longrightarrow> length (overlaps s) \<le> length (frames s) - 1"
proof (induction rule: reachable.induct)
  case reachable_new
  then show ?case by (simp add: new_BoardStitcher_def)
next
  case (reachable_addFrame s frame)
  then show ?case by (auto simp: addFrame_def)
next
  case (reachable_stitch s B)
  obtain err found where d: "detectOverlaps (frames s) [] = (err, found)"
    by (cases "detectOverlaps (frames s) []")
  from detectOverlaps_length[OF d] reachable_stitch d show ?case
    by (auto simp: overlaps_stitch stitch_frames)
next
  case (reachable_clear s)
  then show ?case by (simp add: clear_def)
qed

lemma reachable_overlap_term:
  assumes "reachable s"
  shows "real (length (overlaps s)) / max 1 (real (length (frames s)) - 1) * 40 \<le> 40"
proof -
  from reachable_overlaps_length[OF assms]
  have "real (length (overlaps s)) \<le> real (length (frames s) - 1)" by simp
  also have "\<dots> \<le> max 1 (real (length (frames s)) - 1)" by simp
  finally have le: "real (length (overlaps s)) \<le> max 1 (real (length (frames s)) - 1)" .
  have pos: "0 < max 1 (real (length (frames s)) - 1)" by simp
  from le pos have "real (length (overlaps s)) / max 1 (real (length (frames s)) - 1) \<le> 1"
    by (simp only: pos_divide_le_eq mult_1)
  then have "real (length (overlaps s)) / max 1 (real (length (frames s)) - 1) * 40 \<le> 1 * 40"
    by (intro mult_right_mono) simp_all
  then show ?thesis by (simp only: mult_1)
qed

subsection \<open>Progress\<close>

lemma getProgress_range: "0 \<le> getProgress s \<and> getProgress s \<le> 100"
  by (simp add: getProgress_def Let_def)

lemma getProgress_empty: "length (frames s) = 0 \<Longrightarrow> getProgress s = 0"
  by (simp add: getProgress_def)

lemma addFrame_many:
  assumes "\<not> quality frame < 0.3"
  shows "(addFrame frame ^^ n) s = s\<lparr>frames := frames s @ replicate n frame\<rparr>"
proof (induction n)
  case 0
  then show ?case by simp
next
  case (Suc n)
  then show ?case using assms
    by (simp add: addFrame_def replicate_append_same)
qed

subsection \<open>More of the test scenes\<close>

lemma strip_examples:
  "extractVerticalEdge (canvas blackFrame) right 60 = Inr (Some (replicate 60 0))"
  "extractVerticalEdge (canvas blackFrame) left 60 = Inr (Some (replicate 60 0))"
  "extractVerticalEdge (canvas whiteFrame) left 60 = Inr (Some (replicate 60 255))"
  using extract_solid[of 0 60 1 right] extract_solid[of 0 60 1 left]
    extract_solid[of 255 60 1 left]
  by (simp_all add: blackFrame_def whiteFrame_def mkFrame_def)

lemma best_examples:
  "bestCorrelation (replicate 60 0) (replicate 60 255) = (0, 0)"
  "bestCorrelation (replicate 60 0) (replicate 60 0) = (0, 1)"
  using bestCorrelation_solid[of 60 60 0 255] bestCorrelation_solid[of 60 60 0 0]
  by simp_all

lemma two_black_stitched:
  "snd (stitch blindBrowser (addFrame blackFrame (addFrame blackFrame new_BoardStitcher))) =
     \<lparr>frames = [blackFrame, blackFrame], composition = None, transforms = Map.empty,
      overlaps = [\<lparr>frame1Id = ''black'', frame2Id = ''black'', region_x = 0, region_y = 0,
                   region_width = 60, region_height = 1, confidence = 1\<rparr>]\<rparr>"
proof -
  let ?s = "addFrame blackFrame (addFrame blackFrame new_BoardStitcher)"
  have d: "detectOverlaps (frames ?s) [] =
     (None, [\<lparr>frame1Id = ''black'', frame2Id = ''black'', region_x = 0, region_y = 0,
               region_width = 60, region_height = 1, confidence = 1\<rparr>])"
    by (simp add: frames_examples black_black_overlap)
  have s: "?s = \<lparr>frames = [blackFrame, blackFrame], composition = None,
                  transforms = Map.empty, overlaps = []\<rparr>"
    by (simp add: addFrame_def new_BoardStitcher_def blackFrame_def mkFrame_def)
  have "2 \<le> length (frames ?s)" by (simp add: frames_examples)
  from stitch_blind[OF this d] show ?thesis by (simp add: s)
qed

section \<open>Claims\<close>

text \<open>
  C1. A frame whose quality score is below 0.3 leaves the stitcher as it was, so the frame
  count does not change; a frame whose score is at least 0.3 is appended at the end of
  the stored frames, and nothing else changes.
\<close>

theorem addFrame_quality_gate:
  "(quality frame < 0.3 \<longrightarrow>
      addFrame frame s = s \<and> getFrameCount (addFrame frame s) = getFrameCount s)
   \<and> (0.3 \<le> quality frame \<longrightarrow>
      addFrame frame s = s\<lparr>frames := frames s @ [frame]\<rparr>
      \<and> getFrames (addFrame frame s) = getFrames s @ [frame])"
  by (simp add: addFrame_def getFrames_def)

theorem addFrame_quality_gate_witness:
  "quality lowFrame < 0.3
   \<and> getFrameCount (addFrame lowFrame (addFrame blackFrame new_BoardStitcher)) = 1
   \<and> 0.3 \<le> quality whiteFrame
   \<and> getFrames (addFrame whiteFrame (addFrame blackFrame new_BoardStitcher))
       = [blackFrame, whiteFrame]"
  using addFrame_quality_gate[of lowFrame "addFrame blackFrame new_BoardStitcher"]
    addFrame_quality_gate[of whiteFrame "addFrame blackFrame new_BoardStitcher"]
  by (simp add: lowFrame_def whiteFrame_def mkFrame_def getFrameCount_def getFrames_def
      frames_examples)

text \<open>
  C2. With no frame stored, \<open>stitch\<close> fails with the error of message
  \<open>No frames to stitch\<close> (the specification's EmptyInputError), returns no canvas and
  leaves the stitcher as it was; with at least one frame stored it never fails with that
  error.
\<close>

theorem stitch_empty_input:
  "(length (frames s) = 0 \<longrightarrow> stitch B s = (Inl (Error ''No frames to stitch''), s))
   \<and> (1 \<le> length (frames s) \<longrightarrow> fst (stitch B s) \<noteq> Inl (Error ''No frames to stitch''))"
proof (intro conjI impI)
  assume "length (frames s) = 0"
  then show "stitch B s = (Inl (Error ''No frames to stitch''), s)"
    by (simp add: stitch_def)
next
  assume n: "1 \<le> length (frames s)"
  show "fst (stitch B s) \<noteq> Inl (Error ''No frames to stitch'')"
  proof
    assume "fst (stitch B s) = Inl (Error ''No frames to stitch'')"
    from stitch_error[OF this] n show False by simp
  qed
qed

theorem stitch_empty_input_witness:
  "length (frames new_BoardStitcher) = 0
   \<and> stitch blindBrowser new_BoardStitcher
       = (Inl (Error ''No frames to stitch''), new_BoardStitcher)
   \<and> 1 \<le> length (frames (addFrame whiteFrame (addFrame blackFrame new_BoardStitcher)))
   \<and> fst (stitch blindBrowser (addFrame whiteFrame (addFrame blackFrame new_BoardStitcher)))
       \<noteq> Inl (Error ''No frames to stitch'')"
  using stitch_empty_input[of new_BoardStitcher blindBrowser]
    stitch_empty_input[of "addFrame whiteFrame (addFrame blackFrame new_BoardStitcher)"
      blindBrowser]
  by (simp add: frames_examples) (simp add: new_BoardStitcher_def)

text \<open>
  C3. With exactly one frame stored, \<open>stitch\<close> succeeds and returns that frame's canvas
  itself, so the same size and the same pixels; the stitcher is left as it was.
\<close>

theorem stitch_single_frame:
  "length (frames s) = 1 \<Longrightarrow> stitch B s = (Inr (canvas (frames s ! 0)), s)"
  by (simp add: stitch_def)

theorem stitch_single_frame_witness:
  "length (frames (addFrame blackFrame new_BoardStitcher)) = 1
   \<and> stitch blindBrowser (addFrame blackFrame new_BoardStitcher)
       = (Inr (solidCanvas 0 60 1), addFrame blackFrame new_BoardStitcher)"
proof -
  have h: "length (frames (addFrame blackFrame new_BoardStitcher)) = 1"
    by (simp add: frames_examples)
  from h stitch_single_frame[OF h, of blindBrowser] show ?thesis
    by (simp add: frames_examples) (simp add: blackFrame_def mkFrame_def)
qed



text \<open>
  C5. A region returned by \<open>detectOverlap\<close> has confidence at least 0.5; when both edge
  strips are read and the best correlation score is below 0.5, no region is returned;
  and every region held by a stitcher that was built through its methods has confidence
  at least 0.5.
\<close>

theorem overlap_confidence_floor:
  "(detectOverlap frame1 frame2 = Inr (Some overlap) \<longrightarrow> 0.5 \<le> confidence overlap)
   \<and> (extractVerticalEdge (canvas frame1) right 60 = Inr (Some rightEdge) \<and>
       extractVerticalEdge (canvas frame2) left 60 = Inr (Some leftEdge) \<and>
       snd (bestCorrelation rightEdge leftEdge) < 0.5 \<longrightarrow>
         detectOverlap frame1 frame2 = Inr None)
   \<and> (reachable s \<longrightarrow> (\<forall>stored \<in> set (overlaps s). 0.5 \<le> confidence stored))"
proof (intro conjI impI)
  assume "detectOverlap frame1 frame2 = Inr (Some overlap)"
  from detectOverlap_found(2)[OF this] show "0.5 \<le> confidence overlap" by simp
next
  assume a: "extractVerticalEdge (canvas frame1) right 60 = Inr (Some rightEdge) \<and>
       extractVerticalEdge (canvas frame2) left 60 = Inr (Some leftEdge) \<and>
       snd (bestCorrelation rightEdge leftEdge) < 0.5"
  obtain bo bs where b: "bestCorrelation rightEdge leftEdge = (bo, bs)"
    by (cases "bestCorrelation rightEdge leftEdge")
  with a have "bs < 0.5" by simp
  with a b show "detectOverlap frame1 frame2 = Inr None"
    by (simp add: detectOverlap_strips[of frame1 rightEdge frame2 leftEdge bo bs])
next
  assume "reachable s"
  from reachable_confidence[OF this]
  show "\<forall>stored \<in> set (overlaps s). 0.5 \<le> confidence stored" by simp
qed

theorem overlap_confidence_floor_witness:
  "detectOverlap blackFrame blackFrame =
     Inr (Some \<lparr>frame1Id = ''black'', frame2Id = ''black'', region_x = 0, region_y = 0,
                region_width = 60, region_height = 1, confidence = 1\<rparr>)
   \<and> 0.5 \<le> confidence \<lparr>frame1Id = ''black'', frame2Id = ''black'', region_x = 0, region_y = 0,
                region_width = 60, region_height = 1, confidence = 1\<rparr>
   \<and> snd (bestCorrelation (replicate 60 0) (replicate 60 255)) < 0.5
   \<and> detectOverlap blackFrame whiteFrame = Inr None
   \<and> reachable (snd (stitch blindBrowser
                        (addFrame blackFrame (addFrame blackFrame new_BoardStitcher))))
   \<and> overlaps (snd (stitch blindBrowser
                        (addFrame blackFrame (addFrame blackFrame new_BoardStitcher))))
       = [\<lparr>frame1Id = ''black'', frame2Id = ''black'', region_x = 0, region_y = 0,
           region_width = 60, region_height = 1, confidence = 1\<rparr>]
   \<and> list_all (\<lambda>stored. 0.5 \<le> confidence stored)
        (overlaps (snd (stitch blindBrowser
                          (addFrame blackFrame (addFrame blackFrame new_BoardStitcher)))))"
proof -
  let ?ov = "\<lparr>frame1Id = ''black'', frame2Id = ''black'', region_x = 0, region_y = 0,
                region_width = 60, region_height = 1, confidence = 1\<rparr>"
  let ?s = "snd (stitch blindBrowser
                   (addFrame blackFrame (addFrame blackFrame new_BoardStitcher)))"
  have r: "reachable ?s"
    by (intro reachable.intros)
  have lt: "snd (bestCorrelation (replicate 60 0) (replicate 60 255)) < 0.5"
    by (simp add: best_examples)
  from overlap_confidence_floor[of blackFrame blackFrame ?ov "replicate 60 0" "replicate 60 0" ?s]
    black_black_overlap r
  have a: "0.5 \<le> confidence ?ov" and c: "\<forall>stored \<in> set (overlaps ?s). 0.5 \<le> confidence stored"
    by blast+
  from overlap_confidence_floor[of blackFrame whiteFrame ?ov "replicate 60 0" "replicate 60 255" ?s]
    strip_examples lt
  have b: "detectOverlap blackFrame whiteFrame = Inr None" by blast
  from c have "list_all (\<lambda>stored. 0.5 \<le> confidence stored) (overlaps ?s)"
    by (simp add: list_all_iff)
  moreover have "overlaps ?s = [?ov]" by (simp add: two_black_stitched)
  ultimately show ?thesis using a b r lt black_black_overlap by blast
qed



text \<open>
  C7, as stated, fails: three black frames 20, 1 and 1 pixels wide are stitched onto a
  composite 2 pixels wide, narrower than the first frame.
\<close>

theorem composite_narrower_than_widest_frame:
  "length narrowFrames = 3
   \<and> fst (detectOverlaps narrowFrames []) = None
   \<and> fst (compositionSize narrowFrames (snd (detectOverlaps narrowFrames []))) = 2
   \<and> width (canvas (narrowFrames ! 0)) = 20
   \<and> fst (compositionSize narrowFrames (snd (detectOverlaps narrowFrames [])))
       < real (width (canvas (narrowFrames ! 0)))"
proof -
  have n: "2 \<le> length narrowFrames" by (simp add: narrowFrames_def)
  have "fst (compositionSize narrowFrames (snd (detectOverlaps narrowFrames []))) = 2"
    unfolding narrow_overlaps snd_conv
    using compositionSize_detected(1)[OF n narrow_overlaps]
    by (simp add: narrowFrames_def mkFrame_def solidCanvas_def)
  then show ?thesis
    by (simp add: narrow_overlaps) (simp add: narrowFrames_def mkFrame_def solidCanvas_def)
qed

text \<open>
  C7, amended. When at least two frames are stored, and either exactly two are stored or
  every stored frame is at least 30 pixels wide, the composite width before cropping is
  at least the width of every stored frame.
\<close>

theorem composite_at_least_widest_frame:
  assumes "2 \<le> length fs" and "detectOverlaps fs [] = (None, found)"
    and "length fs = 2 \<or> (\<forall>g \<in> set fs. 30 \<le> width (canvas g))"
    and "f \<in> set fs"
  shows "real (width (canvas f)) \<le> fst (compositionSize fs found)"
proof -
  note size = compositionSize_detected[OF assms(1,2)]
  have sum: "(\<Sum>g\<leftarrow>fs. real (width (canvas g))) = real (\<Sum>g\<leftarrow>fs. width (canvas g))"
    by (induction fs) simp_all
  from assms(3) have "width (canvas f) + 30 * length found \<le> (\<Sum>g\<leftarrow>fs. width (canvas g)) + 40"
  proof
    assume "length fs = 2"
    with size(3) have "length found \<le> 1" by simp
    moreover have "width (canvas f) + 0 * (length fs - 1) \<le> (\<Sum>g\<leftarrow>fs. width (canvas g))"
      by (rule sum_member[OF assms(4)]) simp
    ultimately show ?thesis by simp
  next
    assume "\<forall>g \<in> set fs. 30 \<le> width (canvas g)"
    from sum_member[OF assms(4) this]
    have "width (canvas f) + 30 * (length fs - 1) \<le> (\<Sum>g\<leftarrow>fs. width (canvas g))" .
    moreover from size(3) have "30 * length found \<le> 30 * (length fs - 1)" by simp
    ultimately show ?thesis by linarith
  qed
  then have "real (width (canvas f) + 30 * length found)
             \<le> real ((\<Sum>g\<leftarrow>fs. width (canvas g)) + 40)"
    by (simp only: of_nat_le_iff)
  then show ?thesis unfolding size(1) fst_conv sum by simp
qed

theorem composite_at_least_widest_frame_witness:
  "2 \<le> length [blackFrame, whiteFrame]
   \<and> detectOverlaps [blackFrame, whiteFrame] [] = (None, [])
   \<and> real (width (canvas whiteFrame)) \<le> fst (compositionSize [blackFrame, whiteFrame] [])
   \<and> fst (compositionSize [blackFrame, whiteFrame] []) = 160"
proof -
  have n: "2 \<le> length [blackFrame, whiteFrame]" by simp
  have d: "detectOverlaps [blackFrame, whiteFrame] [] = (None, [])"
    by (simp add: black_white_overlap)
  have h: "length [blackFrame, whiteFrame] = 2
           \<or> (\<forall>g \<in> set [blackFrame, whiteFrame]. 30 \<le> width (canvas g))" by simp
  have m: "whiteFrame \<in> set [blackFrame, whiteFrame]" by simp
  have v: "fst (compositionSize [blackFrame, whiteFrame] []) = 160"
    using compositionSize_detected(1)[OF n d]
    by (simp add: blackFrame_def whiteFrame_def mkFrame_def solidCanvas_def)
  from n d v composite_at_least_widest_frame[OF n d h m] show ?thesis by simp
qed

text \<open>
  C8. After 30 accepted frames and no call of \<open>stitch\<close>, no overlap is stored and
  \<open>getProgress\<close> is 90: the frame term alone exceeds the 60 points that the comment in
  the source and the claim give as its maximum.
\<close>

theorem getProgress_frame_term_exceeds_60:
  "getFrameCount ((addFrame blackFrame ^^ 30) new_BoardStitcher) = 30
   \<and> overlaps ((addFrame blackFrame ^^ 30) new_BoardStitcher) = []
   \<and> getProgress ((addFrame blackFrame ^^ 30) new_BoardStitcher) = 90"
proof -
  have "\<not> quality blackFrame < 0.3" by (simp add: blackFrame_def mkFrame_def)
  from addFrame_many[OF this, of 30 new_BoardStitcher] show ?thesis
    by (simp add: getProgress_def getFrameCount_def new_BoardStitcher_def)
qed

text \<open>
  C9. A call of \<open>stitch\<close> that fails, whatever the failure, leaves the stored frames and
  their order as they were, so the caller may call \<open>stitch\<close> again without adding the
  frames again.
\<close>

theorem failed_stitch_keeps_frames:
  "fst (stitch B s) = Inl e \<Longrightarrow>
     frames (snd (stitch B s)) = frames s \<and> getFrames (snd (stitch B s)) = getFrames s"
  by (simp add: stitch_frames getFrames_def)

theorem failed_stitch_keeps_frames_witness:
  "fst (stitch blindBrowser new_BoardStitcher) = Inl (Error ''No frames to stitch'')
   \<and> frames (snd (stitch blindBrowser new_BoardStitcher)) = []
   \<and> fst (stitch blindBrowser (addFrame whiteFrame (addFrame blackFrame new_BoardStitcher)))
       = Inl (Error ''Failed to get canvas context'')
   \<and> frames (snd (stitch blindBrowser
                      (addFrame whiteFrame (addFrame blackFrame new_BoardStitcher))))
       = [blackFrame, whiteFrame]"
proof -
  have a: "fst (stitch blindBrowser new_BoardStitcher) = Inl (Error ''No frames to stitch'')"
    by (simp add: stitch_def new_BoardStitcher_def)
  have d: "detectOverlaps
             (frames (addFrame whiteFrame (addFrame blackFrame new_BoardStitcher))) []
           = (None, [])"
    by (simp add: frames_examples black_white_overlap)
  have b: "fst (stitch blindBrowser (addFrame whiteFrame (addFrame blackFrame new_BoardStitcher)))
           = Inl (Error ''Failed to get canvas context'')"
    using stitch_blind[OF _ d] by (simp add: frames_examples)
  from a b failed_stitch_keeps_frames[OF a] failed_stitch_keeps_frames[OF b]
  show ?thesis by (simp add: frames_examples) (simp add: new_BoardStitcher_def)
qed

text \<open>
  C10. The stored overlaps are empty in a new stitcher and after \<open>clear\<close>;
  \<open>addFrame\<close>, once or many times, leaves them as they are, also after \<open>clear\<close>;
  \<open>stitch\<close> with fewer than two frames leaves them as they are; \<open>stitch\<close> with two frames or more replaces them by
  the regions its detection loop finds, and a frame added afterwards does not change
  them. \<open>getQuality\<close> and \<open>getProgress\<close> depend on the stored frames and these
  overlaps only.
\<close>

theorem overlaps_recomputed_only_by_multi_frame_stitch:
  "overlaps new_BoardStitcher = []
   \<and> overlaps (addFrame frame s) = overlaps s
   \<and> overlaps (fold addFrame added s) = overlaps s
   \<and> overlaps (clear s) = []
   \<and> overlaps (fold addFrame added (clear s)) = []
   \<and> (length (frames s) < 2 \<longrightarrow> overlaps (snd (stitch B s)) = overlaps s)
   \<and> (2 \<le> length (frames s) \<longrightarrow>
        overlaps (snd (stitch B s)) = snd (detectOverlaps (frames s) [])
        \<and> overlaps (addFrame frame (snd (stitch B s))) = snd (detectOverlaps (frames s) []))
   \<and> (frames s' = frames s \<and> overlaps s' = overlaps s \<longrightarrow>
        getQuality s' = getQuality s \<and> getProgress s' = getProgress s)"
proof -
  have add: "overlaps (addFrame frame t) = overlaps t" for frame t
    by (simp add: addFrame_def)
  have adds: "overlaps (fold addFrame added t) = overlaps t" for t
    by (induction added arbitrary: t) (simp_all add: add)
  have q: "getQuality s' = getQuality s \<and> getProgress s' = getProgress s"
    if "frames s' = frames s \<and> overlaps s' = overlaps s"
    using that by (simp add: getQuality_def getProgress_def)
  show ?thesis
    using q by (simp add: add adds overlaps_stitch) (simp add: new_BoardStitcher_def clear_def)
qed

theorem overlaps_recomputed_only_by_multi_frame_stitch_witness:
  "length (frames (addFrame blackFrame new_BoardStitcher)) < 2
   \<and> overlaps (snd (stitch blindBrowser (addFrame blackFrame new_BoardStitcher))) = []
   \<and> 2 \<le> length (frames (addFrame blackFrame (addFrame blackFrame new_BoardStitcher)))
   \<and> overlaps (snd (stitch blindBrowser
                        (addFrame blackFrame (addFrame blackFrame new_BoardStitcher))))
       = [\<lparr>frame1Id = ''black'', frame2Id = ''black'', region_x = 0, region_y = 0,
           region_width = 60, region_height = 1, confidence = 1\<rparr>]
   \<and> overlaps (addFrame whiteFrame
                  (snd (stitch blindBrowser
                          (addFrame blackFrame (addFrame blackFrame new_BoardStitcher)))))
       = [\<lparr>frame1Id = ''black'', frame2Id = ''black'', region_x = 0, region_y = 0,
           region_width = 60, region_height = 1, confidence = 1\<rparr>]
   \<and> getProgress (addFrame whiteFrame
                  (snd (stitch blindBrowser
                          (addFrame blackFrame (addFrame blackFrame new_BoardStitcher)))))
       = 29"
proof -
  let ?one = "addFrame blackFrame new_BoardStitcher"
  let ?two = "addFrame blackFrame (addFrame blackFrame new_BoardStitcher)"
  let ?ov = "\<lparr>frame1Id = ''black'', frame2Id = ''black'', region_x = 0, region_y = 0,
                region_width = 60, region_height = 1, confidence = 1\<rparr>"
  have l1: "length (frames ?one) < 2" and l2: "2 \<le> length (frames ?two)"
    by (simp_all add: frames_examples)
  have d: "snd (detectOverlaps (frames ?two) []) = [?ov]"
    by (simp add: frames_examples black_black_overlap)
  have o1: "overlaps ?one = []" by (simp add: addFrame_def new_BoardStitcher_def)
  from overlaps_recomputed_only_by_multi_frame_stitch[of blackFrame ?one "[]" blindBrowser ?one]
    l1 o1
  have a: "overlaps (snd (stitch blindBrowser ?one)) = []" by simp
  from overlaps_recomputed_only_by_multi_frame_stitch[of whiteFrame ?two "[]" blindBrowser ?two]
    l2 d
  have b: "overlaps (snd (stitch blindBrowser ?two)) = [?ov]"
    and c: "overlaps (addFrame whiteFrame (snd (stitch blindBrowser ?two))) = [?ov]"
    by simp_all
  have p: "getProgress (addFrame whiteFrame (snd (stitch blindBrowser ?two))) = 29"
    unfolding two_black_stitched
    by (simp add: getProgress_def addFrame_def whiteFrame_def mkFrame_def)
  from l1 l2 a b c p show ?thesis by blast
qed

end
